theory Spec2Isabelle
  imports Main "HOL-Library.Word"
begin

section \<open>Java properties files: a model of \<open>properties.ts\<close>\<close>

text \<open>
  The library keeps a properties file as its list of lines and re-tokenizes the lines
  for every lookup. A JavaScript string is a sequence of UTF-16 code units: a character
  is a \<^typ>\<open>16 word\<close> and a string a list of them. The characters the source compares
  with are named here; \<open>js\<close> gives the code units of an ASCII literal.
\<close>

type_synonym jchar = "16 word"
type_synonym jstring = "jchar list"

abbreviation BS :: jchar where "BS \<equiv> 0x5C"
abbreviation LF :: jchar where "LF \<equiv> 0x0A"
abbreviation CR :: jchar where "CR \<equiv> 0x0D"
abbreviation TAB :: jchar where "TAB \<equiv> 0x09"
abbreviation FF :: jchar where "FF \<equiv> 0x0C"
abbreviation SP :: jchar where "SP \<equiv> 0x20"
abbreviation BANG :: jchar where "BANG \<equiv> 0x21"
abbreviation HASH :: jchar where "HASH \<equiv> 0x23"
abbreviation COLON :: jchar where "COLON \<equiv> 0x3A"
abbreviation EQUALS :: jchar where "EQUALS \<equiv> 0x3D"
abbreviation DIGIT_0 :: jchar where "DIGIT_0 \<equiv> 0x30"
abbreviation LETTER_f :: jchar where "LETTER_f \<equiv> 0x66"
abbreviation LETTER_n :: jchar where "LETTER_n \<equiv> 0x6E"
abbreviation LETTER_r :: jchar where "LETTER_r \<equiv> 0x72"
abbreviation LETTER_t :: jchar where "LETTER_t \<equiv> 0x74"
abbreviation LETTER_u :: jchar where "LETTER_u \<equiv> 0x75"
abbreviation LS :: jchar where "LS \<equiv> 0x2028"
abbreviation PS :: jchar where "PS \<equiv> 0x2029"

definition js :: "string \<Rightarrow> jstring" where
  "js s = map of_char s"

subsection \<open>Data\<close>

text \<open>\<open>Properties\<close>: the plain text unparsed lines.\<close>

record Properties =
  lines :: "jstring list"

text \<open>
  The only failure the source could run into is reading \<open>.length\<close> of an array
  element that is not there; \<open>parse\<close> reads \<open>lines[lines.length - 1]\<close>.
\<close>

datatype error = TypeError

text \<open>\<open>enum State\<close> and the tokenizer's state object of \<open>newState()\<close>.\<close>

datatype State = START | COMMENT | KEY | SEPARATOR | VALUE

record pstate =
  state :: State
  start :: int
  key :: jstring
  sep :: jstring
  val :: jstring
  skipSpace :: bool
  escapedNext :: bool

text \<open>What \<open>listPairs\<close> yields: \<open>{...state, len: line - state.start + 1}\<close>.\<close>

record entry = pstate +
  len :: int

text \<open>The result of \<open>findValue\<close>: \<open>{start, len, sep, value?}\<close>.\<close>

record found =
  f_start :: int
  f_len :: int
  f_sep :: jstring
  f_value :: "jstring option"

text \<open>
  What \<open>chars\<close> yields: a character of a line, or the marker \<open>'EOL'\<close> (a
  three-character string, which no single character of a line equals). The source
  iterates a line by code points, so that a surrogate pair comes as one character of
  two code units; the tokenizer only appends such a character to the key or the value
  and clears its flags, as it does for each of the two code units in turn, so the model
  yields the code units.
\<close>

datatype token = Ch jchar | EOL

subsection \<open>Line splitter\<close>

text \<open>\<open>contents.split(/\r\n|\r|\n/)\<close>: never an empty array.\<close>

fun split_lines :: "jstring \<Rightarrow> jstring list" where
  "split_lines [] = [[]]"
| "split_lines (c # r) =
     (if c = CR then
        (case r of
           [] \<Rightarrow> [] # split_lines r
         | d # r' \<Rightarrow> if d = LF then [] # split_lines r' else [] # split_lines r)
      else if c = LF then [] # split_lines r
      else (case split_lines r of
              [] \<Rightarrow> [[c]]
            | l # ls \<Rightarrow> (c # l) # ls))"

text \<open>An array read \<open>xs[i]\<close>: \<open>undefined\<close> out of range.\<close>

definition index :: "'a list \<Rightarrow> int \<Rightarrow> 'a option" where
  "index xs i = (if 0 \<le> i \<and> i < int (length xs) then Some (xs ! nat i) else None)"

definition parse :: "jstring \<Rightarrow> error + Properties" where
  "parse contents =
     (let ls = split_lines contents in
      if length ls > 0 then
        (case index ls (int (length ls) - 1) of
           None \<Rightarrow> Inl TypeError
         | Some l \<Rightarrow>
             if length l = 0 then Inr \<lparr>lines = butlast ls\<rparr> else Inr \<lparr>lines = ls\<rparr>)
      else Inr \<lparr>lines = ls\<rparr>)"

text \<open>\<open>lines.join('\n')\<close>.\<close>

fun join_nl :: "jstring list \<Rightarrow> jstring" where
  "join_nl [] = []"
| "join_nl [l] = l"
| "join_nl (l # m # ls) = l @ LF # join_nl (m # ls)"

text \<open>
  The loop of \<open>stringify\<close> that removes leading empty lines,
  \<open>while (start < lines.length - 1 && lines[start].length === 0) start++\<close>, followed
  by \<open>lines.slice(start)\<close>.
\<close>

fun skip_leading :: "jstring list \<Rightarrow> jstring list" where
  "skip_leading (l # m # ls) = (if length l = 0 then skip_leading (m # ls) else l # m # ls)"
| "skip_leading ls = ls"

definition stringify :: "Properties \<Rightarrow> jstring" where
  "stringify config =
     (let ls = skip_leading (lines config);
          ls' = (if length ls > 0 \<and> length (last ls) \<noteq> 0 then ls @ [[]] else ls)
      in join_nl ls')"

subsection \<open>Escape codec\<close>

definition unescapeChar :: "jchar \<Rightarrow> jchar" where
  "unescapeChar c =
     (if c = LETTER_r then CR
      else if c = LETTER_t then TAB
      else if c = LETTER_n then LF
      else if c = LETTER_f then FF
      else c)"

text \<open>
  The dot of a regular expression without the \<open>s\<close> flag matches every code unit but
  the line terminators: line feed, carriage return, \<open>U+2028\<close> and \<open>U+2029\<close>.
\<close>

definition line_terminator :: "jchar \<Rightarrow> bool" where
  "line_terminator x = (x = LF \<or> x = CR \<or> x = LS \<or> x = PS)"

text \<open>
  \<open>str.replace(/\\(.)/g, s => unescapeChar(s[1]))\<close>: the matches are found from left
  to right and do not overlap; where a backslash has no match, the search goes on at
  the next code unit.
\<close>

fun unescape :: "jstring \<Rightarrow> jstring" where
  "unescape (c # x # r) =
     (if c = BS \<and> \<not> line_terminator x then unescapeChar x # unescape r
      else c # unescape (x # r))"
| "unescape s = s"

text \<open>\<open>codePoint.toString(16).padStart(4, '0')\<close>.\<close>

definition hex_digit :: "nat \<Rightarrow> jchar" where
  "hex_digit d = (if d < 10 then of_nat (48 + d) else of_nat (87 + d))"

fun to_hex :: "nat \<Rightarrow> jstring" where
  "to_hex n = (if n < 16 then [hex_digit n] else to_hex (n div 16) @ [hex_digit (n mod 16)])"

definition pad_start4 :: "jstring \<Rightarrow> jstring" where
  "pad_start4 s = replicate (4 - length s) (DIGIT_0) @ s"

text \<open>One turn of the loop of \<open>escape\<close>: what is pushed for the character at \<open>index\<close>.\<close>

definition escape_char :: "bool \<Rightarrow> bool \<Rightarrow> nat \<Rightarrow> jchar \<Rightarrow> jstring" where
  "escape_char escapeSpace escapeUnicode i c =
     (if c = SP then (if escapeSpace \<or> i = 0 then [BS, SP] else [SP])
      else if c = BS then [BS, BS]
      else if c = FF then [BS, LETTER_f]
      else if c = LF then [BS, LETTER_n]
      else if c = CR then [BS, LETTER_r]
      else if c = TAB then [BS, LETTER_t]
      else if c = EQUALS \<or> c = COLON \<or> c = HASH \<or> c = BANG then [BS, c]
      else if escapeUnicode \<and> (unat c < 0x20 \<or> unat c > 0x7e)
        then [BS, LETTER_u] @ pad_start4 (to_hex (unat c))
      else [c])"

fun escape_from :: "nat \<Rightarrow> bool \<Rightarrow> bool \<Rightarrow> jstring \<Rightarrow> jstring" where
  "escape_from i escapeSpace escapeUnicode [] = []"
| "escape_from i escapeSpace escapeUnicode (c # r) =
     escape_char escapeSpace escapeUnicode i c @ escape_from (Suc i) escapeSpace escapeUnicode r"

definition escape :: "jstring \<Rightarrow> bool \<Rightarrow> bool \<Rightarrow> jstring" where
  "escape unescapedContent escapeSpace escapeUnicode =
     escape_from 0 escapeSpace escapeUnicode unescapedContent"

text \<open>\<open>escapeUnicode\<close> defaults to true.\<close>

definition escapeKey :: "jstring \<Rightarrow> jstring" where
  "escapeKey unescapedKey = escape unescapedKey True True"

definition escapeValue :: "jstring \<Rightarrow> jstring" where
  "escapeValue unescapedValue = escape unescapedValue False True"

subsection \<open>Tokenizer\<close>

fun chars_from :: "int \<Rightarrow> jstring list \<Rightarrow> (token \<times> int) list" where
  "chars_from i [] = []"
| "chars_from i (l # ls) = map (\<lambda>c. (Ch c, i)) l @ (EOL, i) # chars_from (i + 1) ls"

definition chars :: "jstring list \<Rightarrow> (token \<times> int) list" where
  "chars ls = chars_from 0 ls"

definition newState :: pstate where
  "newState = \<lparr>state = START, start = - 1, key = [], sep = [], val = [],
     skipSpace = True, escapedNext = False\<rparr>"

definition yield :: "pstate \<Rightarrow> int \<Rightarrow> entry" where
  "yield st line = pstate.extend st (entry.fields (line - start st + 1))"

text \<open>
  The blocks of the loop body of \<open>listPairs\<close>, one per state, in the order of the
  source. A block returns the state it leaves and the entry it yields, if any.
\<close>

definition start_block :: "pstate \<Rightarrow> token \<Rightarrow> int \<Rightarrow> pstate" where
  "start_block st c line =
     (if c = EOL then st
      else if c = Ch (HASH) \<or> c = Ch (BANG) then st\<lparr>state := COMMENT, start := line\<rparr>
      else st\<lparr>state := KEY, start := line\<rparr>)"

definition key_block :: "pstate \<Rightarrow> token \<Rightarrow> int \<Rightarrow> pstate \<times> entry list" where
  "key_block st c line =
     (case c of
        EOL \<Rightarrow>
          if escapedNext st then (st\<lparr>escapedNext := False, skipSpace := True\<rparr>, [])
          else (newState, [yield st line])
      | Ch x \<Rightarrow>
          if x = SP \<or> x = EQUALS \<or> x = COLON then
            (if escapedNext st then (st\<lparr>escapedNext := False, key := key st @ [x]\<rparr>, [])
             else (st\<lparr>state := SEPARATOR\<rparr>, []))
          else if x = BS then
            (if escapedNext st then (st\<lparr>escapedNext := False, key := key st @ [x]\<rparr>, [])
             else (st\<lparr>escapedNext := True\<rparr>, []))
          else
            (st\<lparr>key := key st @ [if escapedNext st then unescapeChar x else x],
                escapedNext := False\<rparr>, []))"

text \<open>\<open>state.sep.match(/[=:]/)\<close>\<close>

definition has_sep_char :: "jstring \<Rightarrow> bool" where
  "has_sep_char s = (EQUALS \<in> set s \<or> COLON \<in> set s)"

definition sep_block :: "pstate \<Rightarrow> token \<Rightarrow> int \<Rightarrow> pstate \<times> entry list" where
  "sep_block st c line =
     (case c of
        EOL \<Rightarrow> (newState, [yield st line])
      | Ch x \<Rightarrow>
          if x = SP then (st\<lparr>sep := sep st @ [x]\<rparr>, [])
          else if x = EQUALS \<or> x = COLON then
            (if has_sep_char (sep st) then (st\<lparr>state := VALUE\<rparr>, [])
             else (st\<lparr>sep := sep st @ [x]\<rparr>, []))
          else (st\<lparr>state := VALUE\<rparr>, []))"

definition value_block :: "pstate \<Rightarrow> token \<Rightarrow> int \<Rightarrow> pstate \<times> entry list" where
  "value_block st c line =
     (case c of
        EOL \<Rightarrow>
          if escapedNext st then (st\<lparr>escapedNext := False, skipSpace := True\<rparr>, [])
          else (newState, [yield st line])
      | Ch x \<Rightarrow>
          if x = BS then
            (if escapedNext st then (st\<lparr>escapedNext := False, val := val st @ [x]\<rparr>, [])
             else (st\<lparr>escapedNext := True\<rparr>, []))
          else
            (st\<lparr>val := val st @ [if escapedNext st then unescapeChar x else x],
                escapedNext := False\<rparr>, []))"

text \<open>One turn of \<open>for (const {char, line} of chars(lines))\<close>.\<close>

definition step :: "pstate \<Rightarrow> token \<Rightarrow> int \<Rightarrow> pstate \<times> entry list" where
  "step st0 c line =
     (if skipSpace st0 \<and> c = Ch SP then (st0, [])
      else
        let st1 = st0\<lparr>skipSpace := False\<rparr>;
            st2 = (if state st1 = START then start_block st1 c line else st1)
        in
          if state st2 = COMMENT then ((if c = EOL then newState else st2), [])
          else
            let (st3, out3) = (if state st2 = KEY then key_block st2 c line else (st2, []));
                (st4, out4) = (if state st3 = SEPARATOR then sep_block st3 c line else (st3, []));
                (st5, out5) = (if state st4 = VALUE then value_block st4 c line else (st4, []))
            in (st5, out3 @ out4 @ out5))"

text \<open>The loop: the entries yielded from a state on, and the state the loop ends in.\<close>

fun run :: "pstate \<Rightarrow> (token \<times> int) list \<Rightarrow> entry list" where
  "run st [] = []"
| "run st ((c, line) # cs) = (let (st', out) = step st c line in out @ run st' cs)"

fun final :: "pstate \<Rightarrow> (token \<times> int) list \<Rightarrow> pstate" where
  "final st [] = st"
| "final st ((c, line) # cs) = final (fst (step st c line)) cs"

definition listPairs :: "jstring list \<Rightarrow> entry list" where
  "listPairs ls = run newState (chars ls)"

subsection \<open>Reading\<close>

text \<open>The loop of \<open>findValue\<close>, with the separator remembered so far.\<close>

fun findLoop :: "jstring \<Rightarrow> jstring \<Rightarrow> entry list \<Rightarrow> found" where
  "findLoop k s [] = \<lparr>f_start = - 1, f_len = 0, f_sep = s, f_value = None\<rparr>"
| "findLoop k s (e # es) =
     (let s' = (if sep e \<noteq> [] then sep e else s) in
      if k = key e
      then \<lparr>f_start = start e, f_len = len e, f_sep = sep e, f_value = Some (val e)\<rparr>
      else findLoop k s' es)"

definition findValue :: "jstring list \<Rightarrow> jstring \<Rightarrow> found" where
  "findValue ls k = findLoop k [EQUALS] (listPairs ls)"

definition get :: "Properties \<Rightarrow> jstring \<Rightarrow> jstring option" where
  "get config k = f_value (findValue (lines config) k)"

text \<open>
  \<open>toObject\<close>: \<open>result[key] = value\<close> on a plain object stores the value as an own
  property, except for the key \<open>__proto__\<close>, where the assignment goes to the setter of
  the prototype, which ignores a string. \<open>toMap\<close> stores every entry.
\<close>

definition toObject :: "Properties \<Rightarrow> (jstring \<rightharpoonup> jstring)" where
  "toObject config =
     foldl (\<lambda>result e. if key e = js ''__proto__'' then result else result(key e \<mapsto> val e))
       Map.empty (listPairs (lines config))"

definition toMap :: "Properties \<Rightarrow> (jstring \<rightharpoonup> jstring)" where
  "toMap config = foldl (\<lambda>result e. result(key e \<mapsto> val e)) Map.empty (listPairs (lines config))"

subsection \<open>Writing\<close>

text \<open>\<open>xs.splice(start, len, ...items)\<close> for \<open>start \<ge> 0\<close> and \<open>len > 0\<close>.\<close>

definition array_splice :: "'a list \<Rightarrow> int \<Rightarrow> int \<Rightarrow> 'a list \<Rightarrow> 'a list" where
  "array_splice xs s n items = take (nat s) xs @ items @ drop (nat s + nat n) xs"

definition set_prop :: "Properties \<Rightarrow> jstring \<Rightarrow> jstring option \<Rightarrow> Properties" where
  "set_prop config k v =
     (let f = findValue (lines config) k;
          items = (case v of
                     Some x \<Rightarrow> [escapeKey k @ (if f_sep f \<noteq> [] then f_sep f else [EQUALS]) @ escapeValue x]
                   | None \<Rightarrow> [])
      in if f_start f \<ge> 0 \<and> f_len f > 0
         then config\<lparr>lines := array_splice (lines config) (f_start f) (f_len f) items\<rparr>
         else config\<lparr>lines := lines config @ items\<rparr>)"

definition remove_prop :: "Properties \<Rightarrow> jstring \<Rightarrow> Properties" where
  "remove_prop config k = set_prop config k None"

subsection \<open>Auxiliary notions\<close>

text \<open>The tokens of the characters of line \<open>i\<close>, without its \<open>EOL\<close>.\<close>

abbreviation toks :: "int \<Rightarrow> jstring \<Rightarrow> (token \<times> int) list" where
  "toks i l \<equiv> map (\<lambda>c. (Ch c, i)) l"

text \<open>
  A well-formed separator: spaces, \<open>=\<close> and \<open>:\<close> only, with at most one
  character that is not a space.
\<close>

definition sep_ok :: "jstring \<Rightarrow> bool" where
  "sep_ok s = (set s \<subseteq> {SP, EQUALS, COLON} \<and> length (filter (\<lambda>c. c \<noteq> SP) s) \<le> 1)"

text \<open>
  While line \<open>i\<close> is read, an entry that has begun has begun on a line up to \<open>i\<close>.
\<close>

definition in_entry :: "int \<Rightarrow> pstate \<Rightarrow> bool" where
  "in_entry i st = (0 \<le> i \<and> (state st \<noteq> START \<longrightarrow> 0 \<le> start st \<and> start st \<le> i))"

text \<open>Printable ASCII: the code points \<open>0x20\<close> to \<open>0x7e\<close>.\<close>

definition printable :: "jchar \<Rightarrow> bool" where
  "printable c = (0x20 \<le> unat c \<and> unat c \<le> 0x7e)"




text \<open>
  The text with every line terminator (\<open>\r\n\<close>, \<open>\r\<close>, \<open>\n\<close>) replaced by \<open>\n\<close>.
\<close>

fun normalize_terminators :: "jstring \<Rightarrow> jstring" where
  "normalize_terminators [] = []"
| "normalize_terminators (c # r) =
     (if c = CR then
        LF # (case r of
                [] \<Rightarrow> []
              | d # r' \<Rightarrow> if d = LF then normalize_terminators r' else normalize_terminators r)
      else c # normalize_terminators r)"

text \<open>
  A normalized single trailing terminator: the trailing terminators removed, and one
  put back unless nothing is left.
\<close>

definition single_trailing :: "jstring \<Rightarrow> jstring" where
  "single_trailing s =
     (let b = rev (dropWhile (\<lambda>c. c = LF) (rev s)) in if b = [] then [] else b @ [LF])"

text \<open>
  What \<open>parse\<close> and \<open>stringify\<close> together do to the end of a text: a terminator is
  added to a text that does not end in one, and one is removed from a text that ends in
  two or more.
\<close>

definition trailing_adjusted :: "jstring \<Rightarrow> jstring" where
  "trailing_adjusted n =
     (if n = [] then []
      else if last n \<noteq> LF then n @ [LF]
      else if butlast n \<noteq> [] \<and> last (butlast n) = LF then butlast n
      else n)"

text \<open>The last line removed, if empty: \<open>lines.pop()\<close> in \<open>parse\<close>.\<close>

definition chop :: "jstring list \<Rightarrow> jstring list" where
  "chop ls = (if last ls = [] then butlast ls else ls)"

text \<open>
  The separator \<open>findValue\<close> remembers after the entries \<open>es\<close>: that of the last entry
  with a separator, or \<open>s\<close> when there is none.
\<close>

definition last_sep :: "jstring \<Rightarrow> entry list \<Rightarrow> jstring" where
  "last_sep s es =
     (let ss = filter (\<lambda>x. x \<noteq> []) (map sep es) in if ss = [] then s else last ss)"





text \<open>
  Whether a line ends in a backslash that no backslash before it escapes: the escape
  flag after the line is read from left to right, starting from \<open>b\<close>.
\<close>

fun pending :: "bool \<Rightarrow> jstring \<Rightarrow> bool" where
  "pending b [] = b"
| "pending b (c # r) = pending (c = BS \<and> \<not> b) r"

text \<open>The escape flag is set only within a key or a value, and not while spaces are skipped.\<close>

definition flags_ok :: "pstate \<Rightarrow> bool" where
  "flags_ok st = (escapedNext st \<longrightarrow> (state st = KEY \<or> state st = VALUE) \<and> \<not> skipSpace st)"


section \<open>The tokenizer, state by state\<close>


lemmas block_defs = step_def key_block_def sep_block_def value_block_def start_block_def

lemma yield_sel:
  "start (yield st line) = start st" "len (yield st line) = line - start st + 1"
  "key (yield st line) = key st" "sep (yield st line) = sep st" "val (yield st line) = val st"
  by (simp_all add: yield_def pstate.defs entry.defs)

lemma newState_sel:
  "state newState = START" "start newState = - 1" "key newState = []" "sep newState = []"
  "val newState = []" "skipSpace newState = True" "escapedNext newState = False"
  by (simp_all add: newState_def)

lemma step_START_EOL: "state st = START \<Longrightarrow> step st EOL i = (st\<lparr>skipSpace := False\<rparr>, [])"
  by (simp add: block_defs)

lemma step_COMMENT_EOL: "state st = COMMENT \<Longrightarrow> step st EOL i = (newState, [])"
  by (simp add: block_defs)

lemma step_KEY_EOL: "state st = KEY \<Longrightarrow> step st EOL i =
    (if escapedNext st then (st\<lparr>skipSpace := True, escapedNext := False\<rparr>, [])
     else (newState, [yield (st\<lparr>skipSpace := False\<rparr>) i]))"
  by (simp add: block_defs newState_sel)

lemma step_SEPARATOR_EOL: "state st = SEPARATOR \<Longrightarrow> step st EOL i =
    (newState, [yield (st\<lparr>skipSpace := False\<rparr>) i])"
  by (simp add: block_defs newState_sel)

lemma step_VALUE_EOL: "state st = VALUE \<Longrightarrow> step st EOL i =
    (if escapedNext st then (st\<lparr>skipSpace := True, escapedNext := False\<rparr>, [])
     else (newState, [yield (st\<lparr>skipSpace := False\<rparr>) i]))"
  by (simp add: block_defs newState_sel)

lemma step_skip: "skipSpace st \<Longrightarrow> step st (Ch SP) i = (st, [])"
  by (simp add: step_def)

lemma step_VALUE_Ch: "state st = VALUE \<Longrightarrow> \<not> (skipSpace st \<and> x = SP) \<Longrightarrow> step st (Ch x) i =
    (if x = BS then
       (if escapedNext st then (st\<lparr>skipSpace := False, escapedNext := False, val := val st @ [x]\<rparr>, [])
        else (st\<lparr>skipSpace := False, escapedNext := True\<rparr>, []))
     else (st\<lparr>skipSpace := False, val := val st @ [if escapedNext st then unescapeChar x else x],
              escapedNext := False\<rparr>, []))"
  by (auto simp: block_defs Let_def)

lemma step_SEPARATOR_Ch: "state st = SEPARATOR \<Longrightarrow> \<not> (skipSpace st \<and> x = SP) \<Longrightarrow> step st (Ch x) i =
    (if x = SP \<or> ((x = EQUALS \<or> x = COLON) \<and> \<not> has_sep_char (sep st))
     then (st\<lparr>skipSpace := False, sep := sep st @ [x]\<rparr>, [])
     else step (st\<lparr>skipSpace := False, state := VALUE\<rparr>) (Ch x) i)"
  by (auto simp: block_defs Let_def)

lemma step_KEY_Ch: "state st = KEY \<Longrightarrow> \<not> (skipSpace st \<and> x = SP) \<Longrightarrow> step st (Ch x) i =
    (if x = SP \<or> x = EQUALS \<or> x = COLON then
       (if escapedNext st then (st\<lparr>skipSpace := False, escapedNext := False, key := key st @ [x]\<rparr>, [])
        else step (st\<lparr>skipSpace := False, state := SEPARATOR\<rparr>) (Ch x) i)
     else if x = BS then
       (if escapedNext st then (st\<lparr>skipSpace := False, escapedNext := False, key := key st @ [x]\<rparr>, [])
        else (st\<lparr>skipSpace := False, escapedNext := True\<rparr>, []))
     else (st\<lparr>skipSpace := False, key := key st @ [if escapedNext st then unescapeChar x else x],
              escapedNext := False\<rparr>, []))"
  by (auto simp: block_defs Let_def)

lemma step_COMMENT_Ch: "state st = COMMENT \<Longrightarrow> \<not> (skipSpace st \<and> x = SP) \<Longrightarrow>
    step st (Ch x) i = (st\<lparr>skipSpace := False\<rparr>, [])"
  by (auto simp: block_defs Let_def)

lemma step_START_Ch: "state st = START \<Longrightarrow> \<not> (skipSpace st \<and> x = SP) \<Longrightarrow> step st (Ch x) i =
    (if x = HASH \<or> x = BANG then (st\<lparr>skipSpace := False, state := COMMENT, start := i\<rparr>, [])
     else step (st\<lparr>skipSpace := False, state := KEY, start := i\<rparr>) (Ch x) i)"
  by (auto simp: block_defs Let_def)


lemmas step_EOL = step_START_EOL step_COMMENT_EOL step_KEY_EOL step_SEPARATOR_EOL step_VALUE_EOL
lemmas step_Ch = step_START_Ch step_COMMENT_Ch step_KEY_Ch step_SEPARATOR_Ch step_VALUE_Ch

lemma step_Ch_silent: "snd (step st (Ch x) i) = []"
  by (cases "skipSpace st \<and> x = SP"; cases "state st") (simp_all add: step_skip step_Ch)

lemma no_sep_char_filter:
  "set s \<subseteq> {SP, EQUALS, COLON} \<Longrightarrow> \<not> has_sep_char s \<Longrightarrow> filter (\<lambda>c. c \<noteq> SP) s = []"
  by (induction s) (auto simp: has_sep_char_def)

lemma sep_ok_snoc:
  "sep_ok s \<Longrightarrow> x = SP \<or> ((x = EQUALS \<or> x = COLON) \<and> \<not> has_sep_char s) \<Longrightarrow> sep_ok (s @ [x])"
  by (auto simp: sep_ok_def no_sep_char_filter)

lemma step_Ch_sep_ok: "sep_ok (sep st) \<Longrightarrow> sep_ok (sep (fst (step st (Ch x) i)))"
  by (cases "skipSpace st \<and> x = SP"; cases "state st") (simp_all add: step_skip step_Ch sep_ok_snoc)

lemma sep_ok_Nil: "sep_ok []"
  by (simp add: sep_ok_def)

lemma step_EOL_sep_ok: "sep_ok (sep st) \<Longrightarrow> sep_ok (sep (fst (step st EOL i)))"
  by (cases "state st") (simp_all add: step_EOL newState_sel sep_ok_Nil)

lemma step_EOL_out_sep_ok: "sep_ok (sep st) \<Longrightarrow> e \<in> set (snd (step st EOL i)) \<Longrightarrow> sep_ok (sep e)"
  by (cases "state st") (auto simp: step_EOL yield_sel split: if_splits)


lemma run_append: "run st (a @ b) = run st a @ run (final st a) b"
  by (induction a arbitrary: st) (auto split: prod.splits)

lemma final_append: "final st (a @ b) = final (final st a) b"
  by (induction a arbitrary: st) auto

lemma chars_from_append:
  "chars_from i (a @ b) = chars_from i a @ chars_from (i + int (length a)) b"
  by (induction a arbitrary: i) (auto simp: algebra_simps)

lemma run_toks: "run st (toks i l @ cs) = run (final st (toks i l)) cs"
proof (induction l arbitrary: st)
  case Nil
  then show ?case by simp
next
  case (Cons x l)
  have "snd (step st (Ch x) i) = []" by (rule step_Ch_silent)
  with Cons.IH show ?case by (simp add: split_beta)
qed

lemma final_toks_invariant:
  assumes "\<And>st x. I st \<Longrightarrow> I (fst (step st (Ch x) i))" "I st"
  shows "I (final st (toks i l))"
  using assms(2) by (induction l arbitrary: st) (simp_all add: assms(1))

lemma run_invariant:
  assumes ch: "\<And>i st x. I i st \<Longrightarrow> I i (fst (step st (Ch x) i))"
    and eol: "\<And>i st. I i st \<Longrightarrow> I (i + 1) (fst (step st EOL i))"
    and out: "\<And>i st e. I i st \<Longrightarrow> e \<in> set (snd (step st EOL i)) \<Longrightarrow> P i e"
    and init: "I i st"
  shows "(\<forall>e\<in>set (run st (chars_from i ls)). \<exists>j. i \<le> j \<and> j < i + int (length ls) \<and> P j e)
     \<and> I (i + int (length ls)) (final st (chars_from i ls))"
  using init
proof (induction ls arbitrary: i st)
  case Nil
  then show ?case by simp
next
  case (Cons l ls)
  let ?st1 = "final st (toks i l)"
  let ?st2 = "fst (step ?st1 EOL i)"
  have 2: "I i ?st1"
    using final_toks_invariant[where I="I i"] ch Cons.prems by blast
  have 3: "I (i + 1) ?st2" using eol 2 by blast
  have 4: "\<forall>e\<in>set (snd (step ?st1 EOL i)). P i e" using out 2 by blast
  have 5: "run st (chars_from i (l # ls)) = snd (step ?st1 EOL i) @ run ?st2 (chars_from (i + 1) ls)"
    by (simp add: run_toks split_beta)
  have 6: "final st (chars_from i (l # ls)) = final ?st2 (chars_from (i + 1) ls)"
    by (simp add: final_append)
  have 7: "\<forall>e\<in>set (run ?st2 (chars_from (i + 1) ls)).
      \<exists>j. i + 1 \<le> j \<and> j < i + 1 + int (length ls) \<and> P j e"
    and 8: "I (i + 1 + int (length ls)) (final ?st2 (chars_from (i + 1) ls))"
    using Cons.IH[OF 3] by blast+
  have "\<exists>j. i \<le> j \<and> j < i + int (length (l # ls)) \<and> P j e"
    if "e \<in> set (run st (chars_from i (l # ls)))" for e
  proof -
    from that 5 consider "e \<in> set (snd (step ?st1 EOL i))" | "e \<in> set (run ?st2 (chars_from (i + 1) ls))"
      by auto
    then show ?thesis
    proof cases
      case 1
      with 4 have "P i e" by blast
      then show ?thesis by (intro exI[of _ i]) simp
    next
      case 2
      with 7 obtain j where "i + 1 \<le> j" "j < i + 1 + int (length ls)" "P j e" by blast
      then show ?thesis by (intro exI[of _ j]) simp
    qed
  qed
  moreover have "I (i + int (length (l # ls))) (final st (chars_from i (l # ls)))"
    using 8 6 by (simp add: algebra_simps)
  ultimately show ?case by blast
qed

lemma run_sep_ok:
  "sep_ok (sep st) \<Longrightarrow> (\<forall>e\<in>set (run st (chars_from i ls)). sep_ok (sep e))
     \<and> sep_ok (sep (final st (chars_from i ls)))"
proof -
  assume init: "sep_ok (sep st)"
  have "(\<forall>e\<in>set (run st (chars_from i ls)). \<exists>j. i \<le> j \<and> j < i + int (length ls) \<and> sep_ok (sep e))
     \<and> sep_ok (sep (final st (chars_from i ls)))"
    by (rule run_invariant[where I="\<lambda>i st. sep_ok (sep st)" and P="\<lambda>i e. sep_ok (sep e)"])
      (simp_all add: step_Ch_sep_ok step_EOL_sep_ok step_EOL_out_sep_ok init)
  then show ?thesis by blast
qed

lemma listPairs_sep_ok: "e \<in> set (listPairs ls) \<Longrightarrow> sep_ok (sep e)"
  using run_sep_ok[of newState 0 ls] by (simp add: listPairs_def chars_def newState_sel sep_ok_Nil)

lemma step_Ch_in_entry: "in_entry i st \<Longrightarrow> in_entry i (fst (step st (Ch x) i))"
  by (cases "skipSpace st \<and> x = SP"; cases "state st") (simp_all add: step_skip step_Ch in_entry_def)

lemma step_EOL_in_entry: "in_entry i st \<Longrightarrow> in_entry (i + 1) (fst (step st EOL i))"
  by (cases "state st") (simp_all add: step_EOL in_entry_def newState_sel)

lemma step_EOL_out_range:
  "in_entry i st \<Longrightarrow> e \<in> set (snd (step st EOL i)) \<Longrightarrow>
     0 \<le> start e \<and> start e \<le> i \<and> len e = i - start e + 1"
  by (cases "state st") (auto simp: step_EOL in_entry_def yield_sel split: if_splits)

lemma run_in_entry:
  assumes init: "in_entry i st"
  shows "(\<forall>e\<in>set (run st (chars_from i ls)).
            \<exists>j. i \<le> j \<and> j < i + int (length ls) \<and> (0 \<le> start e \<and> start e \<le> j \<and> len e = j - start e + 1))
     \<and> in_entry (i + int (length ls)) (final st (chars_from i ls))"
  by (rule run_invariant[where I=in_entry
        and P="\<lambda>j e. 0 \<le> start e \<and> start e \<le> j \<and> len e = j - start e + 1"])
    (simp_all add: step_Ch_in_entry step_EOL_in_entry step_EOL_out_range init)


lemma final_in_entry: "in_entry i st \<Longrightarrow> in_entry (i + int (length ls)) (final st (chars_from i ls))"
  using run_in_entry[of i st ls] by blast





section \<open>Evaluating the tokenizer on concrete documents\<close>

lemmas tokenizer_defs = js_def listPairs_def chars_def step_def key_block_def sep_block_def
  value_block_def start_block_def newState_def yield_def has_sep_char_def unescapeChar_def
  pstate.defs entry.defs

lemma listPairs_dup: "listPairs [(js ''k=1''), (js ''k=2'')] =
   [\<lparr>state = VALUE, start = 0, key = (js ''k''), sep = [EQUALS], val = (js ''1''),
      skipSpace = False, escapedNext = False, len = 1\<rparr>,
    \<lparr>state = VALUE, start = 1, key = (js ''k''), sep = [EQUALS], val = (js ''2''),
      skipSpace = False, escapedNext = False, len = 1\<rparr>]"
  by (simp add: tokenizer_defs)

lemma listPairs_continuation: "listPairs [(js ''key=val'') @ [BS], (js ''ue'')] =
   [\<lparr>state = VALUE, start = 0, key = (js ''key''), sep = [EQUALS], val = (js ''value''),
      skipSpace = False, escapedNext = False, len = 2\<rparr>]"
  by (simp add: tokenizer_defs)

lemma listPairs_double_sep: "listPairs [(js ''a==b'')] =
   [\<lparr>state = VALUE, start = 0, key = (js ''a''), sep = [EQUALS], val = (js ''=b''),
      skipSpace = False, escapedNext = False, len = 1\<rparr>]"
  by (simp add: tokenizer_defs)

section \<open>Duplicate keys\<close>

text \<open>
  Claim C1. The claim is that every read returns the value of the last entry with the
  key: for the lines \<open>k=1\<close>, \<open>k=2\<close>, that \<open>get\<close>, \<open>toObject\<close> and \<open>toMap\<close> all give
  \<open>2\<close> for \<open>k\<close>. \<open>toObject\<close> and \<open>toMap\<close> do; \<open>get\<close> goes through \<open>findValue\<close>, which
  returns at the first entry with the key, and gives \<open>1\<close>.
\<close>

theorem get_returns_first_duplicate:
  "get \<lparr>lines = [(js ''k=1''), (js ''k=2'')]\<rparr> (js ''k'') = Some (js ''1'')
   \<and> toObject \<lparr>lines = [(js ''k=1''), (js ''k=2'')]\<rparr> (js ''k'') = Some (js ''2'')
   \<and> toMap \<lparr>lines = [(js ''k=1''), (js ''k=2'')]\<rparr> (js ''k'') = Some (js ''2'')"
  using listPairs_dup by (simp add: js_def get_def findValue_def toObject_def toMap_def)

section \<open>Line continuation\<close>

text \<open>
  Claim C4. The lines \<open>key=val\\<close> and \<open>ue\<close> hold exactly one entry, with key
  \<open>key\<close> and value \<open>value\<close>, that starts on line 0 and spans 2 lines; removing \<open>key\<close>
  deletes both lines and leaves no line.
\<close>

theorem continuation_entry:
  "listPairs [(js ''key=val'') @ [BS], (js ''ue'')] =
     [\<lparr>state = VALUE, start = 0, key = (js ''key''), sep = [EQUALS], val = (js ''value''),
        skipSpace = False, escapedNext = False, len = 2\<rparr>]
   \<and> lines (remove_prop \<lparr>lines = [(js ''key=val'') @ [BS], (js ''ue'')]\<rparr> (js ''key'')) = []"
  using listPairs_continuation
  by (simp add: remove_prop_def set_prop_def findValue_def array_splice_def)

section \<open>The separator\<close>

lemma sep_ok_count:
  "sep_ok s \<Longrightarrow> length (filter (\<lambda>c. c = EQUALS \<or> c = COLON) s) \<le> 1"
proof -
  assume a: "sep_ok s"
  then have "filter (\<lambda>c. c = EQUALS \<or> c = COLON) s = filter (\<lambda>c. c \<noteq> SP) s"
    by (intro filter_cong) (auto simp: sep_ok_def)
  with a show ?thesis by (simp add: sep_ok_def)
qed

text \<open>
  Claim C7. In the state \<open>SEPARATOR\<close>, an \<open>=\<close> or \<open>:\<close> that comes when the separator
  read so far already holds an \<open>=\<close> or \<open>:\<close> moves the tokenizer to \<open>VALUE\<close> and is
  appended to the value; otherwise it is appended to the separator. Hence the separator
  of every entry of every document consists of spaces, \<open>=\<close> and \<open>:\<close> with at most one
  \<open>=\<close> or \<open>:\<close>; and \<open>a==b\<close> is the key \<open>a\<close>, the separator \<open>=\<close> and the value \<open>=b\<close>.
\<close>

theorem second_separator_rule:
  assumes "state st = SEPARATOR" "\<not> escapedNext st" "x = EQUALS \<or> x = COLON"
    and "e \<in> set (listPairs ls)"
  shows "step st (Ch x) i =
      (if has_sep_char (sep st)
       then (st\<lparr>skipSpace := False, state := VALUE, val := val st @ [x]\<rparr>, [])
       else (st\<lparr>skipSpace := False, sep := sep st @ [x]\<rparr>, []))
    \<and> set (sep e) \<subseteq> {SP, EQUALS, COLON}
    \<and> length (filter (\<lambda>c. c = EQUALS \<or> c = COLON) (sep e)) \<le> 1
    \<and> listPairs [(js ''a==b'')] =
        [\<lparr>state = VALUE, start = 0, key = (js ''a''), sep = [EQUALS], val = (js ''=b''),
           skipSpace = False, escapedNext = False, len = 1\<rparr>]"
proof -
  have 1: "step st (Ch x) i =
      (if has_sep_char (sep st)
       then (st\<lparr>skipSpace := False, state := VALUE, val := val st @ [x]\<rparr>, [])
       else (st\<lparr>skipSpace := False, sep := sep st @ [x]\<rparr>, []))"
    using assms(1-3) by (auto simp: step_SEPARATOR_Ch step_VALUE_Ch)
  have 2: "sep_ok (sep e)" using assms(4) by (rule listPairs_sep_ok)
  from 2 have 3: "set (sep e) \<subseteq> {SP, EQUALS, COLON}" by (simp add: sep_ok_def)
  from 1 3 sep_ok_count[OF 2] listPairs_double_sep show ?thesis by blast
qed

theorem second_separator_rule_witness:
  "step \<lparr>state = SEPARATOR, start = 0, key = (js ''a''), sep = [EQUALS], val = [],
          skipSpace = False, escapedNext = False\<rparr> (Ch (EQUALS)) 0 =
     (\<lparr>state = VALUE, start = 0, key = (js ''a''), sep = [EQUALS], val = [EQUALS],
        skipSpace = False, escapedNext = False\<rparr>, [])
   \<and> length (filter (\<lambda>c. c = EQUALS \<or> c = COLON) (sep (hd (listPairs [(js ''a==b'')])))) \<le> 1"
proof -
  let ?st = "\<lparr>state = SEPARATOR, start = 0, key = (js ''a''), sep = [EQUALS], val = [],
          skipSpace = False, escapedNext = False\<rparr>"
  have h: "state ?st = SEPARATOR" "\<not> escapedNext ?st" "EQUALS = EQUALS \<or> EQUALS = COLON"
    "hd (listPairs [(js ''a==b'')]) \<in> set (listPairs [(js ''a==b'')])"
    by (simp_all add: listPairs_double_sep)
  from second_separator_rule[OF h, of 0] show ?thesis
    by (simp add: has_sep_char_def)
qed

section \<open>A line that ends in a backslash\<close>





lemma split_lines_nonempty: "split_lines t \<noteq> []"
  by (induction t rule: split_lines.induct) (auto split: list.splits)

lemma index_last: "xs \<noteq> [] \<Longrightarrow> index xs (int (length xs) - 1) = Some (last xs)"
proof -
  assume a: "xs \<noteq> []"
  then have "nat (int (length xs) - 1) = length xs - 1" by simp
  with a show ?thesis by (simp add: index_def last_conv_nth)
qed

lemma parse_lines:
  "parse t = Inr \<lparr>lines = (if last (split_lines t) = [] then butlast (split_lines t) else split_lines t)\<rparr>"
  using split_lines_nonempty[of t]
  by (simp add: parse_def index_last Let_def)


section \<open>The escape codec\<close>

lemma unescape_plain: "c \<noteq> BS \<Longrightarrow> unescape (c # r) = c # unescape r"
  by (cases r) simp_all

lemma printable_not_control:
  "printable c \<Longrightarrow> c \<noteq> FF \<and> c \<noteq> LF \<and> c \<noteq> CR \<and> c \<noteq> TAB"
  by (auto simp: printable_def)

lemma escape_char_printable:
  "printable c \<Longrightarrow> escape_char es eu i c =
     (if c = SP then (if es \<or> i = 0 then [BS, SP] else [SP])
      else if c = BS \<or> c = EQUALS \<or> c = COLON \<or> c = HASH \<or> c = BANG then [BS, c]
      else [c])"
  using printable_not_control[of c] by (auto simp: escape_char_def printable_def)

lemma unescape_escape_char:
  "printable c \<Longrightarrow> unescape (escape_char es eu i c @ r) = c # unescape r"
  by (auto simp: escape_char_printable unescape_plain unescapeChar_def line_terminator_def)

lemma unescape_escape_from:
  "\<forall>c\<in>set t. printable c \<Longrightarrow> unescape (escape_from i es eu t) = t"
  by (induction t arbitrary: i) (simp_all add: unescape_escape_char)

text \<open>
  Claim C3. For every string of printable ASCII characters, \<open>unescape\<close> of its
  \<open>escapeValue\<close> is the string itself.
\<close>

theorem escape_unescape_inverse:
  assumes "\<forall>c\<in>set t. printable c"
  shows "unescape (escapeValue t) = t"
  using assms by (simp add: escapeValue_def escape_def unescape_escape_from)

theorem escape_unescape_inverse_witness:
  "list_all printable (js '' a=b c'') \<and> unescape (escapeValue (js '' a=b c'')) = (js '' a=b c'')"
proof -
  have h: "\<forall>c\<in>set (js '' a=b c''). printable c" by (simp add: js_def printable_def)
  have "list_all printable (js '' a=b c'')" by (simp add: js_def printable_def)
  with escape_unescape_inverse[OF h] show ?thesis by blast
qed











section \<open>Parsing and formatting\<close>


lemma join_nl_Cons: "X \<noteq> [] \<Longrightarrow> join_nl (l # X) = l @ LF # join_nl X"
  by (cases X) simp_all

lemma split_lines_plain:
  "c \<noteq> CR \<Longrightarrow> c \<noteq> LF \<Longrightarrow> split_lines (c # r) = (c # hd (split_lines r)) # tl (split_lines r)"
  using split_lines_nonempty[of r] by (cases "split_lines r") simp_all

lemma join_nl_hd: "X \<noteq> [] \<Longrightarrow> join_nl ((c # hd X) # tl X) = c # join_nl X"
  by (cases X rule: join_nl.cases) simp_all

lemma split_lines_terminator:
  "split_lines (CR # LF # r) = [] # split_lines r"
  "d \<noteq> LF \<Longrightarrow> split_lines (CR # d # r) = [] # split_lines (d # r)"
  "split_lines [CR] = [[], []]"
  "split_lines (LF # r) = [] # split_lines r"
  by simp_all

lemma split_lines_no_terminator: "\<forall>l\<in>set (split_lines t). LF \<notin> set l"
proof (induction t rule: split_lines.induct)
  case 1
  then show ?case by simp
next
  case (2 c r)
  show ?case
  proof (cases "c = CR")
    case True
    show ?thesis
    proof (cases r)
      case Nil
      with True show ?thesis by simp
    next
      case (Cons d r')
      show ?thesis
      proof (cases "d = LF")
        case dLF: True
        with True Cons 2 have "\<forall>l\<in>set (split_lines r'). LF \<notin> set l" by simp
        with True Cons dLF show ?thesis by (simp add: split_lines_terminator del: split_lines.simps)
      next
        case dLF: False
        with True Cons 2 have "\<forall>l\<in>set (split_lines r). LF \<notin> set l" by simp
        with True Cons dLF show ?thesis by (simp add: split_lines_terminator del: split_lines.simps)
      qed
    qed
  next
    case False
    show ?thesis
    proof (cases "c = LF")
      case True
      with False 2 have "\<forall>l\<in>set (split_lines r). LF \<notin> set l" by simp
      with True show ?thesis by (simp add: split_lines_terminator del: split_lines.simps)
    next
      case cLF: False
      with False 2 have ih: "\<forall>l\<in>set (split_lines r). LF \<notin> set l" by simp
      obtain l ls where s: "split_lines r = l # ls"
        using split_lines_nonempty[of r] by (cases "split_lines r") auto
      with ih have "LF \<notin> set l" "\<forall>l\<in>set ls. LF \<notin> set l" by simp_all
      with cLF False s show ?thesis by (simp add: split_lines_plain del: split_lines.simps)
    qed
  qed
qed

lemma join_split: "join_nl (split_lines t) = normalize_terminators t"
proof (induction t rule: split_lines.induct)
  case 1
  then show ?case by simp
next
  case (2 c r)
  show ?case
  proof (cases "c = CR")
    case True
    show ?thesis
    proof (cases r)
      case Nil
      with True show ?thesis by simp
    next
      case (Cons d r')
      show ?thesis
      proof (cases "d = LF")
        case dLF: True
        with True Cons 2 have "join_nl (split_lines r') = normalize_terminators r'" by simp
        with True Cons dLF show ?thesis
          by (simp add: join_nl_Cons split_lines_nonempty split_lines_terminator del: split_lines.simps)
      next
        case dLF: False
        with True Cons 2 have "join_nl (split_lines r) = normalize_terminators r" by simp
        moreover have "split_lines (c # r) = [] # split_lines r" using True Cons dLF by simp
        moreover have "normalize_terminators (c # r) = LF # normalize_terminators r"
          using True Cons dLF by simp
        ultimately show ?thesis by (simp add: join_nl_Cons split_lines_nonempty)
      qed
    qed
  next
    case False
    show ?thesis
    proof (cases "c = LF")
      case True
      with False 2 have "join_nl (split_lines r) = normalize_terminators r" by simp
      moreover have "split_lines (c # r) = [] # split_lines r" using True by simp
      moreover have "normalize_terminators (c # r) = LF # normalize_terminators r" using True by simp
      ultimately show ?thesis by (simp add: join_nl_Cons split_lines_nonempty)
    next
      case cLF: False
      with False 2 have "join_nl (split_lines r) = normalize_terminators r" by simp
      moreover have "normalize_terminators (c # r) = c # normalize_terminators r" using False by simp
      ultimately show ?thesis
        using False cLF by (simp add: split_lines_plain join_nl_hd split_lines_nonempty del: split_lines.simps(2))
    qed
  qed
qed

lemma join_nl_snoc_empty: "B \<noteq> [] \<Longrightarrow> join_nl (B @ [[]]) = join_nl B @ [LF]"
  by (induction B rule: join_nl.induct) auto

lemma last_join_nl: "L \<noteq> [] \<Longrightarrow> last L \<noteq> [] \<Longrightarrow> join_nl L \<noteq> [] \<and> last (join_nl L) = last (last L)"
  by (induction L rule: join_nl.induct) auto

lemma stringify_empty_first: "stringify \<lparr>lines = [] # X\<rparr> = stringify \<lparr>lines = X\<rparr>"
  by (cases X) (simp_all add: stringify_def)

lemma skip_leading_nonempty: "l \<noteq> [] \<Longrightarrow> skip_leading (l # X) = l # X"
  by (cases X) simp_all

lemma chop_Cons: "xs \<noteq> [] \<Longrightarrow> chop (x # xs) = x # chop xs"
  by (simp add: chop_def)

lemma stringify_no_leading:
  assumes "l \<noteq> []" "\<forall>x\<in>set (l # R). LF \<notin> set x"
  shows "stringify \<lparr>lines = chop (l # R)\<rparr> = trailing_adjusted (join_nl (l # R))"
proof (cases "last (l # R) = []")
  case False
  then have c: "chop (l # R) = l # R" by (simp add: chop_def)
  from False have "last (l # R) \<in> set (l # R)" by (intro last_in_set) simp
  with assms(2) have nl: "LF \<notin> set (last (l # R))" by blast
  from last_join_nl[of "l # R"] False
  have j: "join_nl (l # R) \<noteq> []" "last (join_nl (l # R)) = last (last (l # R))" by auto
  from False have "last (last (l # R)) \<in> set (last (l # R))" by (rule last_in_set)
  with nl have "last (last (l # R)) \<noteq> LF" by auto
  with j have "trailing_adjusted (join_nl (l # R)) = join_nl (l # R) @ [LF]"
    by (simp add: trailing_adjusted_def)
  moreover have "stringify \<lparr>lines = l # R\<rparr> = join_nl (l # R) @ [LF]"
    using False assms(1) join_nl_snoc_empty[of "l # R"]
    by (simp add: stringify_def skip_leading_nonempty del: join_nl.simps)
  ultimately show ?thesis using c by simp
next
  case True
  with assms(1) have "R \<noteq> []" by auto
  define B where "B = butlast (l # R)"
  have B: "l # R = B @ [[]]" "B \<noteq> []"
    using True \<open>R \<noteq> []\<close> append_butlast_last_id[of "l # R"] by (simp_all add: B_def)
  then have hdB: "hd B = l" by (cases B) auto
  with B obtain B' where B': "B = l # B'" by (cases B) auto
  from B True have c: "chop (l # R) = B" by (simp add: chop_def)
  have N: "join_nl (l # R) = join_nl B @ [LF]" using B join_nl_snoc_empty by simp
  have sk: "skip_leading B = B" using B' assms(1) skip_leading_nonempty by simp
  show ?thesis
  proof (cases "last B = []")
    case False
    have "set B \<subseteq> set (B @ [[]])" by auto
    then have "set B \<subseteq> set (l # R)" using B(1) by simp
    with assms(2) have "\<forall>x\<in>set B. LF \<notin> set x" by blast
    with B(2) have nl: "LF \<notin> set (last B)" by simp
    from last_join_nl[OF B(2) False] have j: "join_nl B \<noteq> []" "last (join_nl B) = last (last B)" by auto
    from False have "last (last B) \<in> set (last B)" by (rule last_in_set)
    with nl have "last (last B) \<noteq> LF" by auto
    with j N have "trailing_adjusted (join_nl (l # R)) = join_nl B @ [LF]"
      by (simp add: trailing_adjusted_def)
    moreover have "stringify \<lparr>lines = B\<rparr> = join_nl B @ [LF]"
      using False B(2) sk join_nl_snoc_empty[OF B(2)] by (simp add: stringify_def)
    ultimately show ?thesis using c by simp
  next
    case True
    with B' assms(1) have "B' \<noteq> []" by auto
    define C where "C = butlast B"
    have C: "B = C @ [[]]" "C \<noteq> []"
      using True B' \<open>B' \<noteq> []\<close> append_butlast_last_id[of B] by (simp_all add: C_def)
    then have jB: "join_nl B = join_nl C @ [LF]" using join_nl_snoc_empty by simp
    with N have "trailing_adjusted (join_nl (l # R)) = join_nl B"
      by (simp add: trailing_adjusted_def butlast_append)
    moreover have "stringify \<lparr>lines = B\<rparr> = join_nl B"
      using True sk by (simp add: stringify_def)
    ultimately show ?thesis using c by simp
  qed
qed

lemma stringify_chop:
  assumes "L \<noteq> []" "\<forall>x\<in>set L. LF \<notin> set x"
  shows "stringify \<lparr>lines = chop L\<rparr> = trailing_adjusted (dropWhile (\<lambda>c. c = LF) (join_nl L))"
  using assms
proof (induction L)
  case Nil
  then show ?case by simp
next
  case (Cons l R)
  show ?case
  proof (cases "l = []")
    case False
    with Cons.prems(2) have "hd l \<noteq> LF" by (cases l) auto
    with False have "dropWhile (\<lambda>c. c = LF) (join_nl (l # R)) = join_nl (l # R)"
      by (cases l; cases R) auto
    with stringify_no_leading[OF False Cons.prems(2)] show ?thesis by simp
  next
    case True
    show ?thesis
    proof (cases R)
      case Nil
      with True show ?thesis by (simp add: chop_def stringify_def trailing_adjusted_def)
    next
      case (Cons m ls)
      with Cons.IH Cons.prems True
      have "stringify \<lparr>lines = chop R\<rparr> = trailing_adjusted (dropWhile (\<lambda>c. c = LF) (join_nl R))"
        by simp
      moreover have "chop (l # R) = [] # chop R" using Cons True chop_Cons by simp
      moreover have "dropWhile (\<lambda>c. c = LF) (join_nl (l # R)) = dropWhile (\<lambda>c. c = LF) (join_nl R)"
        using Cons True by simp
      ultimately show ?thesis by (simp add: stringify_empty_first)
    qed
  qed
qed

lemma parse_chop: "parse t = Inr \<lparr>lines = chop (split_lines t)\<rparr>"
  by (simp add: parse_lines chop_def)

text \<open>
  Claim C2, as stated: \<open>stringify (parse text)\<close> is the text with every terminator
  turned into \<open>\n\<close> and a single terminator at its end. It fails for a text that begins
  with an empty line, which \<open>stringify\<close> removes, and for a text that ends in three
  terminators, of which two stay.
\<close>

theorem stringify_parse_drops_leading_line:
  "parse (LF # (js ''a=1'')) = Inr \<lparr>lines = [[], (js ''a=1'')]\<rparr>
   \<and> stringify \<lparr>lines = [[], (js ''a=1'')]\<rparr> = (js ''a=1'') @ [LF]
   \<and> single_trailing (normalize_terminators (LF # (js ''a=1''))) = LF # (js ''a=1'') @ [LF]
   \<and> stringify \<lparr>lines = [[], (js ''a=1'')]\<rparr> \<noteq> single_trailing (normalize_terminators (LF # (js ''a=1'')))
   \<and> parse ((js ''a'') @ [LF, LF, LF]) = Inr \<lparr>lines = [(js ''a''), [], []]\<rparr>
   \<and> stringify \<lparr>lines = [(js ''a''), [], []]\<rparr> = (js ''a'') @ [LF, LF]
   \<and> single_trailing (normalize_terminators ((js ''a'') @ [LF, LF, LF])) = (js ''a'') @ [LF]"
  by (simp add: js_def parse_chop chop_def stringify_def single_trailing_def)

text \<open>
  Claim C2, amended: for every text, \<open>parse\<close> returns a document, and \<open>stringify\<close> of
  it is the text with every terminator turned into \<open>\n\<close>, without the terminators at
  its beginning, and with its end adjusted: a terminator added when the text does not
  end in one, one removed when it ends in two or more. Nothing else changes.
\<close>

theorem stringify_parse:
  "\<exists>doc. parse t = Inr doc
     \<and> stringify doc = trailing_adjusted (dropWhile (\<lambda>c. c = LF) (normalize_terminators t))"
  using stringify_chop[OF split_lines_nonempty split_lines_no_terminator, of t]
  by (simp add: parse_chop join_split)

section \<open>Setting a value\<close>

lemma last_sep_Nil: "last_sep s [] = s"
  by (simp add: last_sep_def)

lemma last_sep_Cons: "last_sep s (e # es) = last_sep (if sep e \<noteq> [] then sep e else s) es"
  by (simp add: last_sep_def Let_def)

lemma last_sep_nonempty: "s \<noteq> [] \<Longrightarrow> last_sep s es \<noteq> []"
  by (induction es arbitrary: s) (simp_all add: last_sep_Nil last_sep_Cons)


lemma findLoop_append:
  "k \<notin> key ` set A \<Longrightarrow> findLoop k s (A @ B) = findLoop k (last_sep s A) B"
  by (induction A arbitrary: s) (simp_all add: last_sep_Nil last_sep_Cons)

lemma findLoop_not_found:
  "k \<notin> key ` set es \<Longrightarrow>
     findLoop k s es = \<lparr>f_start = - 1, f_len = 0, f_sep = last_sep s es, f_value = None\<rparr>"
  using findLoop_append[of k es s "[]"] by simp



text \<open>
  Claim C6. Setting a key that no entry of the document has appends one line, the
  escaped key, a separator and the escaped value. The separator is \<open>=\<close> when no entry of
  the document has a separator, and otherwise the separator of the last entry that has
  one.
\<close>

theorem append_separator:
  assumes "k \<notin> key ` set (listPairs ls)"
  shows "lines (set_prop \<lparr>lines = ls\<rparr> k (Some v)) =
     ls @ [escapeKey k
           @ (if filter (\<lambda>s. s \<noteq> []) (map sep (listPairs ls)) = [] then [EQUALS]
              else last (filter (\<lambda>s. s \<noteq> []) (map sep (listPairs ls))))
           @ escapeValue v]"
proof -
  have "last_sep [EQUALS] (listPairs ls) \<noteq> []" by (rule last_sep_nonempty) simp
  then show ?thesis
    using findLoop_not_found[OF assms, of "[EQUALS]"]
    by (simp add: set_prop_def findValue_def last_sep_def Let_def)
qed

lemma listPairs_colon: "listPairs [(js ''a : 1''), (js ''c'')] =
   [\<lparr>state = VALUE, start = 0, key = (js ''a''), sep = (js '' : ''), val = (js ''1''),
      skipSpace = False, escapedNext = False, len = 1\<rparr>,
    \<lparr>state = KEY, start = 1, key = (js ''c''), sep = [], val = [],
      skipSpace = False, escapedNext = False, len = 1\<rparr>]"
  by (simp add: tokenizer_defs)

theorem append_separator_witness:
  "lines (set_prop \<lparr>lines = [(js ''a : 1''), (js ''c'')]\<rparr> (js ''b'') (Some (js ''2''))) = [(js ''a : 1''), (js ''c''), (js ''b : 2'')]"
proof -
  have h: "(js ''b'') \<notin> key ` set (listPairs [(js ''a : 1''), (js ''c'')])"
    using listPairs_colon by (simp add: js_def)
  from append_separator[OF h, of "(js ''2'')"] listPairs_colon show ?thesis
    by (simp add: js_def escapeKey_def escapeValue_def escape_def escape_char_def)
qed







section \<open>Reading back what was set\<close>

lemma run_invariant_lines:
  assumes enter: "\<And>i st. B i st \<Longrightarrow> I i st"
    and ch: "\<And>i st x. I i st \<Longrightarrow> I i (fst (step st (Ch x) i))"
    and eol: "\<And>i st. I i st \<Longrightarrow> B (i + 1) (fst (step st EOL i))"
    and out: "\<And>i st e. I i st \<Longrightarrow> e \<in> set (snd (step st EOL i)) \<Longrightarrow> P i e"
    and init: "B i st"
  shows "(\<forall>e\<in>set (run st (chars_from i ls)). \<exists>j. i \<le> j \<and> j < i + int (length ls) \<and> P j e)
     \<and> B (i + int (length ls)) (final st (chars_from i ls))"
  using init
proof (induction ls arbitrary: i st)
  case Nil
  then show ?case by simp
next
  case (Cons l ls)
  let ?st1 = "final st (toks i l)"
  let ?st2 = "fst (step ?st1 EOL i)"
  have 2: "I i ?st1"
    using final_toks_invariant[where I="I i"] ch enter Cons.prems by blast
  have 3: "B (i + 1) ?st2" using eol 2 by blast
  have 4: "\<forall>e\<in>set (snd (step ?st1 EOL i)). P i e" using out 2 by blast
  have 5: "run st (chars_from i (l # ls)) = snd (step ?st1 EOL i) @ run ?st2 (chars_from (i + 1) ls)"
    by (simp add: run_toks split_beta)
  have 6: "final st (chars_from i (l # ls)) = final ?st2 (chars_from (i + 1) ls)"
    by (simp add: final_append)
  have 7: "\<forall>e\<in>set (run ?st2 (chars_from (i + 1) ls)).
      \<exists>j. i + 1 \<le> j \<and> j < i + 1 + int (length ls) \<and> P j e"
    and 8: "B (i + 1 + int (length ls)) (final ?st2 (chars_from (i + 1) ls))"
    using Cons.IH[OF 3] by blast+
  have "\<exists>j. i \<le> j \<and> j < i + int (length (l # ls)) \<and> P j e"
    if "e \<in> set (run st (chars_from i (l # ls)))" for e
  proof -
    from that 5 consider "e \<in> set (snd (step ?st1 EOL i))" | "e \<in> set (run ?st2 (chars_from (i + 1) ls))"
      by auto
    then show ?thesis
    proof cases
      case 1
      with 4 have "P i e" by blast
      then show ?thesis by (intro exI[of _ i]) simp
    next
      case 2
      with 7 obtain j where "i + 1 \<le> j" "j < i + 1 + int (length ls)" "P j e" by blast
      then show ?thesis by (intro exI[of _ j]) simp
    qed
  qed
  moreover have "B (i + int (length (l # ls))) (final st (chars_from i (l # ls)))"
    using 8 6 by (simp add: algebra_simps)
  ultimately show ?case by blast
qed




















lemma sep_ok_prefix: "sep_ok (a @ b) \<Longrightarrow> sep_ok a"
  by (auto simp: sep_ok_def)













lemma find_append_none: "\<forall>x\<in>set xs. \<not> P x \<Longrightarrow> find P (xs @ ys) = find P ys"
  by (induction xs) simp_all



































section \<open>No parse error\<close>

lemma flags_ok_plain: "\<not> escapedNext st \<Longrightarrow> flags_ok st"
  by (simp add: flags_ok_def)

lemma flags_ok_escaped:
  "flags_ok st \<Longrightarrow> escapedNext st \<Longrightarrow> (state st = KEY \<or> state st = VALUE) \<and> \<not> skipSpace st"
  by (simp add: flags_ok_def)

lemma step_Ch_unskipped:
  "\<not> (skipSpace st \<and> c = SP) \<Longrightarrow> \<not> skipSpace (fst (step st (Ch c) i))"
  by (cases "state st") (simp_all add: step_Ch)

lemma step_Ch_plain_flag:
  "\<not> escapedNext st \<Longrightarrow> \<not> (skipSpace st \<and> c = SP) \<Longrightarrow>
     escapedNext (fst (step st (Ch c) i)) = (c = BS \<and> state (fst (step st (Ch c) i)) \<noteq> COMMENT)"
  by (cases "state st") (simp_all add: step_Ch)

lemma step_BS_state:
  "\<not> escapedNext st \<Longrightarrow>
     state (fst (step st (Ch BS) i)) = COMMENT \<or> state (fst (step st (Ch BS) i)) = KEY
     \<or> state (fst (step st (Ch BS) i)) = VALUE"
  by (cases "state st") (simp_all add: step_Ch)

lemma step_Ch_escaped:
  assumes "escapedNext st" "state st = KEY \<or> state st = VALUE" "\<not> skipSpace st"
  shows "\<not> escapedNext (fst (step st (Ch c) i))"
proof -
  from assms(2) show ?thesis
  proof
    assume "state st = KEY"
    with assms(1,3) show ?thesis by (simp add: step_KEY_Ch)
  next
    assume "state st = VALUE"
    with assms(1,3) show ?thesis by (simp add: step_VALUE_Ch)
  qed
qed

lemma step_Ch_flags:
  assumes "flags_ok st"
  shows "flags_ok (fst (step st (Ch c) i))
    \<and> (state (fst (step st (Ch c) i)) = COMMENT
       \<or> escapedNext (fst (step st (Ch c) i)) = (c = BS \<and> \<not> escapedNext st))"
proof (cases "escapedNext st")
  case True
  with assms have "state st = KEY \<or> state st = VALUE" "\<not> skipSpace st"
    using flags_ok_escaped by blast+
  with True have "\<not> escapedNext (fst (step st (Ch c) i))" by (rule step_Ch_escaped)
  with True show ?thesis by (simp add: flags_ok_plain)
next
  case False
  show ?thesis
  proof (cases "skipSpace st \<and> c = SP")
    case True
    with False assms show ?thesis by (simp add: step_skip)
  next
    case ns: False
    let ?st1 = "fst (step st (Ch c) i)"
    have 1: "\<not> skipSpace ?st1" using ns by (rule step_Ch_unskipped)
    have 2: "escapedNext ?st1 = (c = BS \<and> state ?st1 \<noteq> COMMENT)"
      using False ns by (rule step_Ch_plain_flag)
    have 3: "escapedNext ?st1 \<longrightarrow> state ?st1 = KEY \<or> state ?st1 = VALUE"
    proof
      assume "escapedNext ?st1"
      with 2 have c: "c = BS" and nc: "state ?st1 \<noteq> COMMENT" by blast+
      from step_BS_state[OF False, of i] c nc show "state ?st1 = KEY \<or> state ?st1 = VALUE"
        by blast
    qed
    from 1 3 have "flags_ok ?st1" unfolding flags_ok_def by blast
    with 2 False show ?thesis by blast
  qed
qed

lemma step_EOL_flags:
  assumes "flags_ok st"
  shows "flags_ok (fst (step st EOL i)) \<and> \<not> escapedNext (fst (step st EOL i))"
proof -
  have "\<not> escapedNext (fst (step st EOL i))"
  proof (cases "escapedNext st")
    case True
    with assms have "state st = KEY \<or> state st = VALUE" using flags_ok_escaped by blast
    then show ?thesis
    proof
      assume "state st = KEY" with True show ?thesis by (simp add: step_KEY_EOL)
    next
      assume "state st = VALUE" with True show ?thesis by (simp add: step_VALUE_EOL)
    qed
  next
    case False
    then show ?thesis by (cases "state st") (simp_all add: step_EOL newState_sel)
  qed
  then show ?thesis by (simp add: flags_ok_plain)
qed

lemma step_EOL_silent:
  assumes "flags_ok st" "state st = COMMENT \<or> escapedNext st"
  shows "snd (step st EOL i) = []"
proof (cases "escapedNext st")
  case True
  with assms(1) have "state st = KEY \<or> state st = VALUE" using flags_ok_escaped by blast
  then show ?thesis
  proof
    assume "state st = KEY" with True show ?thesis by (simp add: step_KEY_EOL)
  next
    assume "state st = VALUE" with True show ?thesis by (simp add: step_VALUE_EOL)
  qed
next
  case False
  with assms(2) have "state st = COMMENT" by blast
  then show ?thesis by (simp add: step_EOL)
qed

lemma final_comment: "state st = COMMENT \<Longrightarrow> state (final st (toks i l)) = COMMENT"
proof (rule final_toks_invariant[where I="\<lambda>st. state st = COMMENT"])
  fix st :: pstate and x assume c: "state st = COMMENT"
  show "state (fst (step st (Ch x) i)) = COMMENT"
    by (cases "skipSpace st \<and> x = SP") (simp_all add: step_skip step_COMMENT_Ch c)
qed

lemma final_line_flags:
  "flags_ok st \<Longrightarrow>
     flags_ok (final st (toks i l))
     \<and> (state (final st (toks i l)) = COMMENT
        \<or> escapedNext (final st (toks i l)) = pending (escapedNext st) l)"
proof (induction l arbitrary: st)
  case Nil
  then show ?case by simp
next
  case (Cons c l)
  let ?st1 = "fst (step st (Ch c) i)"
  from step_Ch_flags[OF Cons.prems, of c i]
  have f1: "flags_ok ?st1"
    and e1: "state ?st1 = COMMENT \<or> escapedNext ?st1 = (c = BS \<and> \<not> escapedNext st)" by blast+
  from Cons.IH[OF f1]
  have f: "flags_ok (final ?st1 (toks i l))"
    and e: "state (final ?st1 (toks i l)) = COMMENT
        \<or> escapedNext (final ?st1 (toks i l)) = pending (escapedNext ?st1) l" by blast+
  show ?case
  proof (cases "state ?st1 = COMMENT")
    case True
    then have "state (final ?st1 (toks i l)) = COMMENT" by (rule final_comment)
    with f show ?thesis by simp
  next
    case False
    with e1 have "escapedNext ?st1 = (c = BS \<and> \<not> escapedNext st)" by blast
    with f e show ?thesis by simp
  qed
qed

lemma final_boundary_flags:
  assumes "flags_ok st" "\<not> escapedNext st"
  shows "flags_ok (final st (chars_from i ls)) \<and> \<not> escapedNext (final st (chars_from i ls))"
proof -
  have "(\<forall>e\<in>set (run st (chars_from i ls)). \<exists>j. i \<le> j \<and> j < i + int (length ls) \<and> True)
     \<and> (flags_ok (final st (chars_from i ls)) \<and> \<not> escapedNext (final st (chars_from i ls)))"
  proof (rule run_invariant_lines[where B="\<lambda>i st. flags_ok st \<and> \<not> escapedNext st"
        and I="\<lambda>i. flags_ok" and P="\<lambda>j e. True"])
    show "flags_ok st \<and> \<not> escapedNext st" using assms by blast
  next
    fix i st assume "flags_ok st"
    then show "flags_ok (fst (step st EOL i)) \<and> \<not> escapedNext (fst (step st EOL i))"
      by (rule step_EOL_flags)
  next
    fix i st x assume "flags_ok st"
    then show "flags_ok (fst (step st (Ch x) i))" using step_Ch_flags by blast
  qed blast+
  then show ?thesis by blast
qed

lemma open_line_dropped: "pending False l \<Longrightarrow> listPairs (ls @ [l]) = listPairs ls"
proof -
  assume a: "pending False l"
  let ?n = "int (length ls)"
  let ?stf = "final newState (chars_from 0 ls)"
  let ?st = "final ?stf (toks ?n l)"
  have b: "flags_ok ?stf \<and> \<not> escapedNext ?stf"
    by (rule final_boundary_flags) (simp_all add: flags_ok_plain newState_sel)
  with final_line_flags[of ?stf ?n l] a
  have "flags_ok ?st" "state ?st = COMMENT \<or> escapedNext ?st" by simp_all
  then have "snd (step ?st EOL ?n) = []" by (rule step_EOL_silent)
  moreover have "run ?stf (chars_from ?n [l]) = snd (step ?st EOL ?n)"
    by (simp add: run_toks split_beta)
  ultimately have "run ?stf (chars_from ?n [l]) = []" by simp
  then show ?thesis
    by (simp add: listPairs_def chars_def chars_from_append run_append)
qed

lemma pending_snoc: "pending b (xs @ [c]) = (c = BS \<and> \<not> pending b xs)"
  by (induction xs arbitrary: b) simp_all

lemma pending_parity:
  "pending False l = odd (length (takeWhile (\<lambda>c. c = BS) (rev l)))"
proof (induction l rule: rev_induct)
  case Nil
  then show ?case by simp
next
  case (snoc c l)
  then show ?case by (simp add: pending_snoc)
qed

text \<open>
  Claim C9. \<open>parse\<close> returns a document for every input: the read of the last line, the
  only place where it could fail, is never out of range. The entries of a document are
  a total function of its lines, with no error among its results. When the last line of
  a document ends in an unescaped backslash, that is, in an odd number of backslashes,
  the entries are those of the lines before it: what the last line began or continued
  is dropped; so the one line \<open>a=b\\<close> has no entry.
\<close>

theorem permissive:
  assumes "odd (length (takeWhile (\<lambda>c. c = BS) (rev l)))"
  shows "(\<exists>doc. parse contents = Inr doc) \<and> listPairs (ls @ [l]) = listPairs ls
    \<and> listPairs [js ''a=b'' @ [BS]] = []"
proof -
  from assms have "pending False l" by (simp add: pending_parity)
  then have 1: "listPairs (ls @ [l]) = listPairs ls" by (rule open_line_dropped)
  have "pending False (js ''a=b'' @ [BS])" by (simp add: js_def)
  then have "listPairs ([] @ [js ''a=b'' @ [BS]]) = listPairs []" by (rule open_line_dropped)
  then have "listPairs [js ''a=b'' @ [BS]] = []" by (simp add: listPairs_def chars_def)
  with 1 parse_lines[of contents] show ?thesis by blast
qed

theorem permissive_witness:
  "(\<exists>doc. parse (js ''k=v'') = Inr doc)
   \<and> listPairs ([js ''a=1''] @ [js ''k=v'' @ [BS, BS, BS]]) = listPairs [js ''a=1'']"
proof -
  have h: "odd (length (takeWhile (\<lambda>c. c = BS) (rev (js ''k=v'' @ [BS, BS, BS]))))"
    by (simp add: js_def)
  from permissive[OF h, of "js ''k=v''" "[js ''a=1'']"] show ?thesis by blast
qed

end
